theory Spec2Isabelle
  imports Main "HOL-Library.Sublist"
begin

section \<open>MateriAI: the response parser of \<open>streamlit_app.py\<close>\<close>

text \<open>
  The development embeds \<open>display_table\<close> and the button handler of \<open>main\<close>.
  A Python \<open>str\<close> is a \<open>string\<close>; a \<open>char\<close> stands for a code point below 256.
  The two external services (text and image generation) are parameters.
\<close>

subsection \<open>Python string primitives\<close>

text \<open>
  \<open>str.isspace\<close> on one character, which is also what \<open>str.strip()\<close> and the
  regular expression class \<open>\s\<close> test: below 256 these are the code points
  9 to 13, 28 to 32, 133 and 160.
\<close>

definition isspace :: "char \<Rightarrow> bool" where
  "isspace c = (c \<in> set [CHR 0x09, CHR 0x0A, CHR 0x0B, CHR 0x0C, CHR 0x0D,
                          CHR 0x1C, CHR 0x1D, CHR 0x1E, CHR 0x1F, CHR 0x20,
                          CHR 0x85, CHR 0xA0])"

text \<open>The class \<open>\d\<close>: below 256 the decimal digits are \<open>0\<close> to \<open>9\<close>.\<close>

definition isdigit :: "char \<Rightarrow> bool" where
  "isdigit c = (c \<in> set ''0123456789'')"

text \<open>\<open>s.lstrip(chars)\<close>, \<open>s.rstrip()\<close> and \<open>s.strip()\<close>.\<close>

definition lstrip_chars :: "string \<Rightarrow> string \<Rightarrow> string" where
  "lstrip_chars chars s = dropWhile (\<lambda>c. c \<in> set chars) s"

definition lstrip :: "string \<Rightarrow> string" where
  "lstrip s = dropWhile isspace s"

definition rstrip :: "string \<Rightarrow> string" where
  "rstrip s = rev (dropWhile isspace (rev s))"

definition strip :: "string \<Rightarrow> string" where
  "strip s = rstrip (lstrip s)"

text \<open>
  \<open>s.split(sep)\<close> for a non-empty separator: the occurrences of \<open>sep\<close> are
  found from the left and do not overlap. Python raises \<open>ValueError\<close> on an
  empty separator; both call sites pass a literal, and the model then returns
  the string whole.
\<close>

function split_str :: "string \<Rightarrow> string \<Rightarrow> string \<Rightarrow> string list" where
  "split_str sep piece [] = [rev piece]"
| "split_str sep piece (c # cs) =
     (if sep \<noteq> [] \<and> prefix sep (c # cs)
      then rev piece # split_str sep [] (drop (length sep) (c # cs))
      else split_str sep (c # piece) cs)"
  by pat_completeness auto
termination
  by (relation "measure (\<lambda>(sep, piece, s). length s)") auto

definition split :: "string \<Rightarrow> string \<Rightarrow> string list" where
  "split sep s = split_str sep [] s"

text \<open>
  \<open>s.replace(old, new)\<close> for a non-empty \<open>old\<close>: one pass from the left, the
  text put in place of an occurrence is not scanned again.
\<close>

function replace :: "string \<Rightarrow> string \<Rightarrow> string \<Rightarrow> string" where
  "replace old new [] = []"
| "replace old new (c # cs) =
     (if old \<noteq> [] \<and> prefix old (c # cs)
      then new @ replace old new (drop (length old) (c # cs))
      else c # replace old new cs)"
  by pat_completeness auto
termination
  by (relation "measure (\<lambda>(old, new, s). length s)") auto

text \<open>The slice \<open>xs[1:-1]\<close>: from index 1 up to, not including, the last element.\<close>

definition slice_1_m1 :: "'a list \<Rightarrow> 'a list" where
  "slice_1_m1 xs = drop 1 (take (length xs - 1) xs)"

text \<open>Indexing a list with a non-negative constant raises \<open>IndexError\<close> out of range.\<close>

datatype error = IndexError

definition index :: "'a list \<Rightarrow> nat \<Rightarrow> error + 'a" where
  "index xs i = (if i < length xs then Inr (xs ! i) else Inl IndexError)"

definition bind :: "error + 'a \<Rightarrow> ('a \<Rightarrow> error + 'b) \<Rightarrow> error + 'b" where
  "bind r f = (case r of Inl e \<Rightarrow> Inl e | Inr x \<Rightarrow> f x)"

subsection \<open>The substitution \<open>re.sub(r"^\d+\.\s*|\:$", "", line)\<close>\<close>

text \<open>
  The first alternative can match at position 0 only: one or more digits, a
  period, then all the whitespace that follows. \<open>match_ordinal\<close> gives the
  length of that match.
\<close>

definition match_ordinal :: "string \<Rightarrow> nat option" where
  "match_ordinal s =
     (let digits = takeWhile isdigit s; rest = dropWhile isdigit s
      in if digits \<noteq> [] \<and> rest \<noteq> [] \<and> hd rest = CHR ''.''
         then Some (length digits + 1 + length (takeWhile isspace (tl rest)))
         else None)"

text \<open>
  The second alternative is a colon at \<open>$\<close>: at the end of the string, or
  before a line break that ends the string.
\<close>

definition match_colon :: "string \<Rightarrow> bool" where
  "match_colon s = (s = '':'' \<or> s = '':\<newline>'')"

fun sub_colon :: "string \<Rightarrow> string" where
  "sub_colon [] = []"
| "sub_colon (c # cs) = (if match_colon (c # cs) then sub_colon cs else c # sub_colon cs)"

definition re_sub_name :: "string \<Rightarrow> string" where
  "re_sub_name s =
     (case match_ordinal s of
        Some n \<Rightarrow> sub_colon (drop n s)
      | None \<Rightarrow> sub_colon s)"

subsection \<open>\<open>display_table\<close>\<close>

text \<open>
  One row of the table. The dictionary keys \<open>Material\<close>, \<open>Properties\<close>,
  \<open>Pros\<close>, \<open>Cons\<close> and \<open>Image\<close> are the fields, under the names of the local
  variables that fill them.
\<close>

record material =
  material_name :: string
  properties :: string
  pros :: string
  cons :: string
  image_url :: string

text \<open>
  \<open>get_image_from_dalle\<close> returns the URL of the service's answer, or \<open>None\<close>
  when the call raised (also when the answer held no image). The service
  itself is the parameter \<open>dalle\<close>.
\<close>

type_synonym image_service = "string \<Rightarrow> string option"

definition get_image_from_dalle :: "image_service \<Rightarrow> string \<Rightarrow> string option" where
  "get_image_from_dalle dalle description = dalle description"

text \<open>
  The cell \<open>Image\<close>: the URL when \<open>if image_url:\<close> holds (neither \<open>None\<close> nor
  the empty string), the text \<open>No Image\<close> otherwise.
\<close>

definition image_cell :: "string option \<Rightarrow> string" where
  "image_cell img =
     (case img of
        None \<Rightarrow> ''No Image''
      | Some url \<Rightarrow> if url \<noteq> [] then url else ''No Image'')"

text \<open>The expression \<open>line.replace(label, "").lstrip('- ').strip()\<close>.\<close>

definition field_text :: "string \<Rightarrow> string \<Rightarrow> string" where
  "field_text label line = strip (lstrip_chars ''- '' (replace label [] line))"

text \<open>
  The block under \<open>if len(lines) > 2:\<close>, for the lines of one paragraph:
  \<open>Inr None\<close> when nothing is appended to \<open>materials\<close>, \<open>Inr (Some m)\<close> when
  the row \<open>m\<close> is appended, \<open>Inl IndexError\<close> when an index is out of range.
\<close>

definition row_of_lines :: "image_service \<Rightarrow> string list \<Rightarrow> error + material option" where
  "row_of_lines dalle lines =
     (if length lines > 2 then
        bind (index lines 0) (\<lambda>line0.
        bind (index lines 1) (\<lambda>line1.
        bind (index lines 2) (\<lambda>line2.
        bind (if length lines > 3
              then bind (index lines 3) (\<lambda>line3. Inr (field_text ''Cons: '' line3))
              else Inr []) (\<lambda>cons_text.
          (let name = strip (re_sub_name line0);
               img = get_image_from_dalle dalle name
           in Inr (Some \<lparr> material_name = name,
                           properties = field_text ''Properties: '' line1,
                           pros = field_text ''Pros: '' line2,
                           cons = cons_text,
                           image_url = image_cell img \<rparr>))))))
      else Inr None)"

text \<open>The body of the loop \<open>for material_info in paragraphs\<close>.\<close>

definition material_of :: "image_service \<Rightarrow> string \<Rightarrow> error + material option" where
  "material_of dalle paragraph =
     (let material_info = strip paragraph in
      if material_info \<noteq> [] then row_of_lines dalle (split ''\<newline>'' material_info)
      else Inr None)"

fun materials_loop :: "image_service \<Rightarrow> string list \<Rightarrow> material list \<Rightarrow> error + material list" where
  "materials_loop dalle [] materials = Inr materials"
| "materials_loop dalle (paragraph # paragraphs) materials =
     (case material_of dalle paragraph of
        Inl e \<Rightarrow> Inl e
      | Inr None \<Rightarrow> materials_loop dalle paragraphs materials
      | Inr (Some m) \<Rightarrow> materials_loop dalle paragraphs (materials @ [m]))"

text \<open>The paragraphs the loop runs over: \<open>output.strip().split('\n\n')[1:-1]\<close>.\<close>

definition paragraphs_of :: "string \<Rightarrow> string list" where
  "paragraphs_of output = slice_1_m1 (split ''\<newline>\<newline>'' (strip output))"

text \<open>The data frame that \<open>display_table\<close> returns is the list of its rows.\<close>

definition display_table :: "image_service \<Rightarrow> string \<Rightarrow> error + material list" where
  "display_table dalle output =
     (let paragraphs = paragraphs_of output in
      if paragraphs = [] then Inr []
      else materials_loop dalle paragraphs [])"

subsection \<open>The button handler of \<open>main\<close>\<close>

text \<open>
  What the handler does is a list of events, in order: the calls to the three
  services and the widgets it shows. A service answers \<open>Some text\<close>, or
  \<open>None\<close> when the call raised. The messages are the source's, without the
  emoji (code points beyond 255), the quotation marks and the text of the
  exception.
\<close>

datatype explanation = Brief | Detailed

datatype event =
    CompletionCall string
  | ChatCall string
  | ImageCall string
  | Warning string
  | Error string
  | Markdown string
  | Picture string string
  | Write string
  | Success string
  | Raised error

type_synonym text_service = "string \<Rightarrow> string option"

definition summarize_input :: "text_service \<Rightarrow> string \<Rightarrow> event list \<times> string option" where
  "summarize_input completion input_text =
     (let prompt = ''\<newline>        Generate a one sentence, descriptive and concise prompt for the user input: ''
                   @ input_text
                   @ ''\<newline>        The output must be in one sentence.\<newline>        ''
      in case completion prompt of
           Some cover_prompt \<Rightarrow> ([CompletionCall prompt], Some cover_prompt)
         | None \<Rightarrow> ([CompletionCall prompt, Error ''An error occurred during summarization''], None))"

definition fetch_brief_material_suggestions :: "text_service \<Rightarrow> string \<Rightarrow> event list \<times> string option" where
  "fetch_brief_material_suggestions chat summarized_input =
     (let content = summarized_input
                    @ ''. Please provide the main key points regarding the materials properties, pros, and cons.''
      in case chat content of
           Some answer \<Rightarrow> ([ChatCall content], Some answer)
         | None \<Rightarrow> ([ChatCall content, Error ''An error occurred''], None))"

definition fetch_detailed_material_suggestions :: "text_service \<Rightarrow> string \<Rightarrow> event list \<times> string option" where
  "fetch_detailed_material_suggestions chat summarized_input =
     (let content = summarized_input
                    @ ''. Please provide detailed explanations regarding the materials properties, pros, and cons.''
      in case chat content of
           Some answer \<Rightarrow> ([ChatCall content], Some answer)
         | None \<Rightarrow> ([ChatCall content, Error ''An error occurred''], None))"

text \<open>
  The events of \<open>display_table\<close>: one image request for each row, with the
  row's name, and the warning of \<open>get_image_from_dalle\<close> when it failed.
\<close>

definition image_events :: "image_service \<Rightarrow> material \<Rightarrow> event list" where
  "image_events dalle m =
     (case dalle (material_name m) of
        Some url \<Rightarrow> [ImageCall (material_name m)]
      | None \<Rightarrow> [ImageCall (material_name m),
                 Warning (''Error generating image for '' @ material_name m)])"

text \<open>The loop \<open>for _, row in df.iterrows()\<close>, for one row.\<close>

definition show_row :: "material \<Rightarrow> event list" where
  "show_row row =
     [Markdown (''### '' @ material_name row)]
     @ (if image_url row \<noteq> ''No Image''
        then [Picture (image_url row) (material_name row)] else [])
     @ [Markdown (''**Properties:** '' @ properties row),
        Markdown (''**Pros:** '' @ pros row),
        Markdown (''**Cons:** '' @ cons row),
        Write ''---'']"

text \<open>
  The block under \<open>if st.button('Get Material Suggestions')\<close>, up to the
  success message; the nested \<open>Save Output\<close> button is left out.
\<close>

definition get_suggestions ::
  "text_service \<Rightarrow> text_service \<Rightarrow> image_service \<Rightarrow> string \<Rightarrow> explanation \<Rightarrow> event list" where
  "get_suggestions completion chat dalle user_input explanation_type =
     (if strip user_input = [] then
        [Warning ''Please enter a valid project description.'']
      else
        (case summarize_input completion user_input of (events1, summarized_input) \<Rightarrow>
           (case summarized_input of
              None \<Rightarrow> events1 @ [Error ''Failed to summarize the input. Please try again.'']
            | Some summary \<Rightarrow>
                if summary = [] then
                  events1 @ [Error ''Failed to summarize the input. Please try again.'']
                else
                  (case (if explanation_type = Brief
                         then fetch_brief_material_suggestions chat summary
                         else fetch_detailed_material_suggestions chat summary)
                   of (events2, output) \<Rightarrow>
                     events1
                     @ [Markdown (''**Summarized Project Description:** '' @ summary)]
                     @ events2
                     @ (case output of
                          None \<Rightarrow> []
                        | Some text \<Rightarrow>
                            if text = [] then []
                            else (case display_table dalle text of
                                    Inl e \<Rightarrow> [Raised e]
                                  | Inr df \<Rightarrow>
                                      concat (map (image_events dalle) df)
                                      @ concat (map show_row df)
                                      @ [Success ''Material suggestions fetched successfully!'']))))))"

text \<open>The events that reach a service.\<close>

fun is_gateway_call :: "event \<Rightarrow> bool" where
  "is_gateway_call (CompletionCall p) = True"
| "is_gateway_call (ChatCall p) = True"
| "is_gateway_call (ImageCall p) = True"
| "is_gateway_call e = False"

subsection \<open>Notions the properties are stated with\<close>

text \<open>\<open>sub in s\<close>: the string \<open>sub\<close> occurs somewhere in \<open>s\<close>.\<close>

fun occurs :: "string \<Rightarrow> string \<Rightarrow> bool" where
  "occurs sub [] = (sub = [])"
| "occurs sub (c # cs) = (prefix sub (c # cs) \<or> occurs sub cs)"

text \<open>\<open>sep.join(pieces)\<close>.\<close>

fun join :: "string \<Rightarrow> string list \<Rightarrow> string" where
  "join sep [] = []"
| "join sep [p] = p"
| "join sep (p # q # ps) = p @ sep @ join sep (q # ps)"

text \<open>The lines the loop body sees for a paragraph.\<close>

definition lines_of :: "string \<Rightarrow> string list" where
  "lines_of paragraph = split ''\<newline>'' (strip paragraph)"

text \<open>The row appended to \<open>materials\<close> for a paragraph, if any.\<close>

definition emitted :: "image_service \<Rightarrow> string \<Rightarrow> material option" where
  "emitted dalle paragraph =
     (case material_of dalle paragraph of Inr r \<Rightarrow> r | Inl e \<Rightarrow> None)"

text \<open>The rows of the table; none if \<open>display_table\<close> raised.\<close>

definition rows_of :: "image_service \<Rightarrow> string \<Rightarrow> material list" where
  "rows_of dalle output =
     (case display_table dalle output of Inr rows \<Rightarrow> rows | Inl e \<Rightarrow> [])"

text \<open>The four text cells of a row.\<close>

definition text_cells :: "material \<Rightarrow> string \<times> string \<times> string \<times> string" where
  "text_cells m = (material_name m, properties m, pros m, cons m)"

text \<open>A service that fails on every request.\<close>

definition failing_service :: "string \<Rightarrow> string option" where
  "failing_service description = None"

text \<open>
  Label stripping as the specification words it: the label is removed only
  where it is a prefix of the line. \<open>spec_field_text\<close> is \<open>field_text\<close>
  with this in place of \<open>replace\<close>.
\<close>

definition strip_label_prefix :: "string \<Rightarrow> string \<Rightarrow> string" where
  "strip_label_prefix label line =
     (if prefix label line then drop (length label) line else line)"

definition spec_field_text :: "string \<Rightarrow> string \<Rightarrow> string" where
  "spec_field_text label line = strip (lstrip_chars ''- '' (strip_label_prefix label line))"

text \<open>A paragraph cut down to its first \<open>n\<close> lines.\<close>

definition first_lines :: "nat \<Rightarrow> string \<Rightarrow> string" where
  "first_lines n paragraph = join ''\<newline>'' (take n (lines_of paragraph))"

section \<open>Auxiliary facts\<close>

subsection \<open>strip\<close>

lemma all_dropWhile: "(\<forall>c\<in>set (dropWhile P s). P c) \<longleftrightarrow> (\<forall>c\<in>set s. P c)"
  by (induction s) auto

lemma strip_eq_Nil: "strip s = [] \<longleftrightarrow> (\<forall>c\<in>set s. isspace c)"
  by (simp add: strip_def rstrip_def lstrip_def dropWhile_eq_Nil_conv all_dropWhile)

lemma rstrip_decomp: "\<exists>w. s = rstrip s @ w \<and> (\<forall>c\<in>set w. isspace c)"
proof -
  have "s = rev (takeWhile isspace (rev s) @ dropWhile isspace (rev s))"
    by simp
  also have "\<dots> = rev (dropWhile isspace (rev s)) @ rev (takeWhile isspace (rev s))"
    by (rule rev_append)
  finally have "s = rstrip s @ rev (takeWhile isspace (rev s))"
    by (simp only: rstrip_def)
  moreover have "\<forall>c\<in>set (rev (takeWhile isspace (rev s))). isspace c"
    by (auto dest: set_takeWhileD)
  ultimately show ?thesis by blast
qed

lemma lstrip_decomp: "\<exists>w. s = w @ lstrip s \<and> (\<forall>c\<in>set w. isspace c)"
proof -
  have "s = takeWhile isspace s @ lstrip s"
    by (simp add: lstrip_def)
  moreover have "\<forall>c\<in>set (takeWhile isspace s). isspace c"
    by (auto dest: set_takeWhileD)
  ultimately show ?thesis by blast
qed

lemma strip_decomp:
  "\<exists>a b. s = a @ strip s @ b \<and> (\<forall>c\<in>set a. isspace c) \<and> (\<forall>c\<in>set b. isspace c)"
proof -
  obtain a where a: "s = a @ lstrip s" "\<forall>c\<in>set a. isspace c"
    using lstrip_decomp by blast
  obtain b where b: "lstrip s = rstrip (lstrip s) @ b" "\<forall>c\<in>set b. isspace c"
    using rstrip_decomp by blast
  have "s = a @ strip s @ b"
    using a(1) b(1) by (simp add: strip_def)
  then show ?thesis using a(2) b(2) by blast
qed

lemma rstrip_id: "s = [] \<or> \<not> isspace (last s) \<Longrightarrow> rstrip s = s"
  by (cases s rule: rev_cases) (auto simp: rstrip_def)

lemma lstrip_id: "s = [] \<or> \<not> isspace (hd s) \<Longrightarrow> lstrip s = s"
  by (cases s) (auto simp: lstrip_def)

lemma strip_id: "s = [] \<or> (\<not> isspace (hd s) \<and> \<not> isspace (last s)) \<Longrightarrow> strip s = s"
  by (auto simp: strip_def lstrip_id rstrip_id)

lemma hd_lstrip: "lstrip s \<noteq> [] \<Longrightarrow> \<not> isspace (hd (lstrip s))"
  by (simp add: lstrip_def hd_dropWhile)

lemma last_rstrip: "rstrip s \<noteq> [] \<Longrightarrow> \<not> isspace (last (rstrip s))"
  by (simp add: rstrip_def last_rev hd_dropWhile)

lemma hd_rstrip: "rstrip s \<noteq> [] \<Longrightarrow> hd (rstrip s) = hd s"
proof -
  assume n: "rstrip s \<noteq> []"
  obtain w where "s = rstrip s @ w" using rstrip_decomp by blast
  then have "hd s = hd (rstrip s @ w)" by simp
  then show ?thesis using n by simp
qed

lemma hd_strip: "strip s \<noteq> [] \<Longrightarrow> \<not> isspace (hd (strip s))"
proof -
  assume n: "strip s \<noteq> []"
  then have "lstrip s \<noteq> []" by (auto simp: strip_def rstrip_def)
  then have "\<not> isspace (hd (lstrip s))" by (rule hd_lstrip)
  then show ?thesis using n hd_rstrip [of "lstrip s"] by (simp add: strip_def)
qed

lemma last_strip: "strip s \<noteq> [] \<Longrightarrow> \<not> isspace (last (strip s))"
  by (simp add: strip_def last_rstrip)

subsection \<open>split\<close>

lemma split_str_piece:
  "split_str sep p s = (rev p @ hd (split_str sep [] s)) # tl (split_str sep [] s)"
proof (induction s arbitrary: p rule: length_induct)
  case (1 s)
  show ?case
  proof (cases s)
    case Nil
    then show ?thesis by simp
  next
    case (Cons c cs)
    show ?thesis
    proof (cases "sep \<noteq> [] \<and> prefix sep (c # cs)")
      case True
      then show ?thesis using Cons by simp
    next
      case False
      have less: "length cs < length s"
        using Cons by simp
      have a: "split_str sep (c # p) cs
               = (rev (c # p) @ hd (split_str sep [] cs)) # tl (split_str sep [] cs)"
        using 1 [rule_format, OF less] .
      have b: "split_str sep [c] cs
               = (rev [c] @ hd (split_str sep [] cs)) # tl (split_str sep [] cs)"
        using 1 [rule_format, OF less] .
      have "split_str sep p s = split_str sep (c # p) cs"
        using Cons False by auto
      moreover have "split_str sep [] s = split_str sep [c] cs"
        using Cons False by auto
      ultimately show ?thesis using a b by simp
    qed
  qed
qed

lemma split_Nil: "split sep [] = [[]]"
  by (simp add: split_def)

lemma split_Cons:
  "split sep (c # cs) =
     (if sep \<noteq> [] \<and> prefix sep (c # cs)
      then [] # split sep (drop (length sep) (c # cs))
      else (c # hd (split sep cs)) # tl (split sep cs))"
proof (cases "sep \<noteq> [] \<and> prefix sep (c # cs)")
  case True
  then show ?thesis by (simp add: split_def)
next
  case False
  then have "split_str sep [] (c # cs) = split_str sep [c] cs"
    by auto
  then show ?thesis
    using False split_str_piece [of sep "[c]" cs] by (simp add: split_def)
qed

lemma split_induct [consumes 0, case_names Nil Sep Char]:
  assumes "P []"
    and "\<And>c cs. sep \<noteq> [] \<Longrightarrow> prefix sep (c # cs) \<Longrightarrow> P (drop (length sep) (c # cs)) \<Longrightarrow> P (c # cs)"
    and "\<And>c cs. \<not> (sep \<noteq> [] \<and> prefix sep (c # cs)) \<Longrightarrow> P cs \<Longrightarrow> P (c # cs)"
  shows "P s"
proof (induction s rule: length_induct)
  case (1 s)
  show ?case
  proof (cases s)
    case Nil
    then show ?thesis using assms(1) by simp
  next
    case (Cons c cs)
    show ?thesis
    proof (cases "sep \<noteq> [] \<and> prefix sep (c # cs)")
      case True
      then have "length (drop (length sep) (c # cs)) < length s"
        using Cons by (cases sep) auto
      then have "P (drop (length sep) (c # cs))" using 1 by blast
      then show ?thesis using assms(2) True Cons by blast
    next
      case False
      have "P cs" using 1 Cons by simp
      then show ?thesis using assms(3) False Cons by blast
    qed
  qed
qed

lemma split_not_Nil: "split sep s \<noteq> []"
  by (cases s) (simp_all add: split_Nil split_Cons)

lemma hd_split_prefix: "prefix (hd (split sep s)) s"
  by (induction s rule: split_induct [where sep = sep]) (simp_all add: split_Nil split_Cons)

lemma occurs_sublist: "occurs sub s = sublist sub s"
  by (induction s) (auto simp: sublist_Cons_right)

lemma split_piece_free:
  "sep \<noteq> [] \<Longrightarrow> p \<in> set (split sep s) \<Longrightarrow> \<not> occurs sep p"
proof (induction s arbitrary: p rule: split_induct [where sep = sep])
  case Nil
  then show ?case by (simp add: split_Nil)
next
  case (Sep c cs)
  then show ?case by (auto simp: split_Cons)
next
  case (Char c cs)
  have h: "hd (split sep cs) \<in> set (split sep cs)"
    using split_not_Nil by simp
  have t: "set (tl (split sep cs)) \<subseteq> set (split sep cs)"
    by (meson list.set_sel(2) split_not_Nil subsetI)
  have np: "\<not> prefix sep (c # hd (split sep cs))"
  proof
    assume "prefix sep (c # hd (split sep cs))"
    moreover have "prefix (c # hd (split sep cs)) (c # cs)"
      using hd_split_prefix by simp
    ultimately have "prefix sep (c # cs)" by (rule prefix_order.trans)
    then show False using Char by simp
  qed
  from Char(4) have "p = c # hd (split sep cs) \<or> p \<in> set (tl (split sep cs))"
    using Char(1) by (simp add: split_Cons)
  then show ?case
  proof
    assume "p = c # hd (split sep cs)"
    then show ?thesis using np Char(2) [OF Char(3) h] by simp
  next
    assume "p \<in> set (tl (split sep cs))"
    then show ?thesis using Char(2) [OF Char(3)] t by blast
  qed
qed

lemma occurs_single: "occurs [x] s \<longleftrightarrow> x \<in> set s"
  by (induction s) auto

lemma split_line_free: "l \<in> set (split [x] s) \<Longrightarrow> x \<notin> set l"
  using split_piece_free [of "[x]" l s] by (simp add: occurs_single)

subsection \<open>Lines of a trimmed paragraph\<close>

lemma split_single_Cons:
  "split [x] (c # cs) =
     (if c = x then [] # split [x] cs else (c # hd (split [x] cs)) # tl (split [x] cs))"
  by (simp add: split_Cons)

lemma split_single_nonempty:
  "\<not> occurs [x, x] s \<Longrightarrow> s = [] \<or> last s \<noteq> x \<Longrightarrow>
   [] \<notin> set (tl (split [x] s)) \<and> (hd (split [x] s) = [] \<longleftrightarrow> s = [] \<or> hd s = x)"
proof (induction s)
  case Nil
  then show ?case by (simp add: split_Nil)
next
  case (Cons c cs)
  have free: "\<not> occurs [x, x] cs"
    using Cons.prems(1) by simp
  have last: "cs = [] \<or> last cs \<noteq> x"
    using Cons.prems(2) by (auto split: if_splits)
  note IH = Cons.IH [OF free last]
  show ?case
  proof (cases "c = x")
    case True
    then have "cs \<noteq> []"
      using Cons.prems(2) by auto
    moreover have "hd cs \<noteq> x"
      using Cons.prems(1) True \<open>cs \<noteq> []\<close> by (cases cs) auto
    ultimately have "hd (split [x] cs) \<noteq> []"
      using IH by simp
    then have "[] \<notin> set (split [x] cs)"
      using IH split_not_Nil [of "[x]" cs] by (cases "split [x] cs") auto
    then show ?thesis using True by (simp add: split_single_Cons)
  next
    case False
    then show ?thesis using IH by (simp add: split_single_Cons)
  qed
qed

lemma lines_nonempty_aux:
  assumes "\<not> occurs [x, x] s" and "s \<noteq> []" and "hd s \<noteq> x" and "last s \<noteq> x"
  shows "[] \<notin> set (split [x] s)"
proof -
  have "[] \<notin> set (tl (split [x] s))" and "hd (split [x] s) \<noteq> []"
    using split_single_nonempty [of x s] assms by auto
  then show ?thesis
    using split_not_Nil [of "[x]" s] by (cases "split [x] s") auto
qed

lemma set_slice_1_m1: "set (slice_1_m1 xs) \<subseteq> set xs"
  unfolding slice_1_m1_def by (meson in_set_dropD in_set_takeD subsetI)

lemma paragraph_free:
  "p \<in> set (paragraphs_of output) \<Longrightarrow> \<not> occurs ''\<newline>\<newline>'' p"
  using set_slice_1_m1 split_piece_free [of "''\<newline>\<newline>''" p "strip output"]
  unfolding paragraphs_of_def by fastforce

lemma sublist_strip: "sublist (strip s) s"
proof -
  obtain a b where "s = a @ strip s @ b"
    using strip_decomp by blast
  then show ?thesis
    unfolding sublist_def by blast
qed

lemma occurs_strip: "occurs sub (strip s) \<Longrightarrow> occurs sub s"
  unfolding occurs_sublist using sublist_strip sublist_order.order.trans by blast

lemma isspace_newline: "isspace (CHR ''\<newline>'')"
  by (simp add: isspace_def)

lemma lines_nonempty:
  assumes "p \<in> set (paragraphs_of output)" and "strip p \<noteq> []"
  shows "[] \<notin> set (lines_of p)"
proof -
  have "\<not> occurs ''\<newline>\<newline>'' (strip p)"
    using paragraph_free [OF assms(1)] occurs_strip by blast
  moreover have "hd (strip p) \<noteq> CHR ''\<newline>''"
    using hd_strip [OF assms(2)] isspace_newline by auto
  moreover have "last (strip p) \<noteq> CHR ''\<newline>''"
    using last_strip [OF assms(2)] isspace_newline by auto
  ultimately show ?thesis
    unfolding lines_of_def using assms(2) by (intro lines_nonempty_aux)
qed

lemma lines_of_blank: "strip p = [] \<Longrightarrow> lines_of p = [[]]"
  by (simp add: lines_of_def split_Nil)

lemma line_free: "l \<in> set (lines_of p) \<Longrightarrow> CHR ''\<newline>'' \<notin> set l"
  unfolding lines_of_def by (rule split_line_free)

lemma hd_lines_of:
  assumes "strip p \<noteq> []"
  shows "hd (lines_of p) \<noteq> [] \<and> \<not> isspace (hd (hd (lines_of p)))"
proof -
  obtain c cs where s: "strip p = c # cs"
    using assms by (cases "strip p") auto
  have c: "\<not> isspace c"
    using hd_strip [OF assms] s by simp
  then have "c \<noteq> CHR ''\<newline>''"
    using isspace_newline by auto
  then have "hd (lines_of p) = c # hd (split ''\<newline>'' cs)"
    unfolding lines_of_def s by (simp add: split_single_Cons)
  then show ?thesis using c by simp
qed

subsection \<open>The rows\<close>

lemma row_of_lines_short: "length lines \<le> 2 \<Longrightarrow> row_of_lines dalle lines = Inr None"
  by (simp add: row_of_lines_def)

lemma row_of_lines_long:
  "2 < length lines \<Longrightarrow>
   row_of_lines dalle lines =
     Inr (Some \<lparr> material_name = strip (re_sub_name (lines ! 0)),
                 properties = field_text ''Properties: '' (lines ! 1),
                 pros = field_text ''Pros: '' (lines ! 2),
                 cons = (if 3 < length lines then field_text ''Cons: '' (lines ! 3) else []),
                 image_url = image_cell (dalle (strip (re_sub_name (lines ! 0)))) \<rparr>)"
  by (auto simp: row_of_lines_def index_def bind_def get_image_from_dalle_def Let_def)

lemma material_of_lines:
  "material_of dalle p = row_of_lines dalle (lines_of p)"
  by (simp add: material_of_def lines_of_def Let_def split_Nil row_of_lines_short)

lemma material_of_emitted: "material_of dalle p = Inr (emitted dalle p)"
proof (cases "2 < length (lines_of p)")
  case True
  then show ?thesis
    by (simp add: emitted_def material_of_lines row_of_lines_long)
next
  case False
  then show ?thesis
    by (simp add: emitted_def material_of_lines row_of_lines_short)
qed

lemma emitted_short: "length (lines_of p) \<le> 2 \<Longrightarrow> emitted dalle p = None"
  by (simp add: emitted_def material_of_lines row_of_lines_short)

lemma emitted_long:
  "2 < length (lines_of p) \<Longrightarrow>
   emitted dalle p =
     Some \<lparr> material_name = strip (re_sub_name (lines_of p ! 0)),
            properties = field_text ''Properties: '' (lines_of p ! 1),
            pros = field_text ''Pros: '' (lines_of p ! 2),
            cons = (if 3 < length (lines_of p)
                    then field_text ''Cons: '' (lines_of p ! 3) else []),
            image_url = image_cell (dalle (strip (re_sub_name (lines_of p ! 0)))) \<rparr>"
  by (simp add: emitted_def material_of_lines row_of_lines_long)

lemma emitted_iff: "emitted dalle p \<noteq> None \<longleftrightarrow> 2 < length (lines_of p)"
  using emitted_short [of p dalle] emitted_long [of p dalle] by (cases "2 < length (lines_of p)") auto

lemma materials_loop_rows:
  "materials_loop dalle ps materials = Inr (materials @ List.map_filter (emitted dalle) ps)"
proof (induction ps arbitrary: materials)
  case Nil
  then show ?case by (simp add: List.map_filter_simps)
next
  case (Cons p ps)
  then show ?case
    by (cases "emitted dalle p") (simp_all add: material_of_emitted List.map_filter_simps)
qed

lemma display_table_rows:
  "display_table dalle output = Inr (List.map_filter (emitted dalle) (paragraphs_of output))"
  by (simp add: display_table_def Let_def materials_loop_rows List.map_filter_simps)

subsection \<open>Facts about the table\<close>

lemma rows_of_eq: "rows_of dalle output = List.map_filter (emitted dalle) (paragraphs_of output)"
  by (simp add: rows_of_def display_table_rows)

lemma in_map_filter: "y \<in> set (List.map_filter f xs) \<longleftrightarrow> (\<exists>x\<in>set xs. f x = Some y)"
  by (induction xs) (auto split: option.splits)

lemma in_rows_of:
  "m \<in> set (rows_of dalle output) \<longleftrightarrow> (\<exists>p\<in>set (paragraphs_of output). emitted dalle p = Some m)"
  by (simp add: rows_of_eq in_map_filter)

lemma length_map_filter:
  "length (List.map_filter f xs) = length (filter (\<lambda>x. f x \<noteq> None) xs)"
  by (induction xs) (auto split: option.splits)

lemma nonempty_line_count:
  assumes "p \<in> set (paragraphs_of output)"
  shows "(2 < length (lines_of p)) = (3 \<le> length (filter (\<lambda>l. l \<noteq> []) (lines_of p)))"
proof (cases "strip p = []")
  case True
  then show ?thesis by (simp add: lines_of_blank)
next
  case False
  have "filter (\<lambda>l. l \<noteq> []) (lines_of p) = lines_of p"
    using lines_nonempty [OF assms False] by (auto simp: filter_id_conv)
  then show ?thesis by auto
qed

lemma image_url_emitted:
  "emitted dalle p = Some m \<Longrightarrow> image_url m = image_cell (dalle (material_name m))"
  using emitted_long [of p dalle] emitted_short [of p dalle]
  by (cases "2 < length (lines_of p)") auto

lemma text_cells_emitted:
  "map_option text_cells (emitted d1 p) = map_option text_cells (emitted d2 p)"
  using emitted_long [of p] emitted_short [of p]
  by (cases "2 < length (lines_of p)") (auto simp: text_cells_def)

lemma map_map_filter:
  "map f (List.map_filter g xs) = List.map_filter (\<lambda>x. map_option f (g x)) xs"
  by (induction xs) (auto split: option.splits)

lemma text_cells_rows:
  "map text_cells (rows_of d1 output) = map text_cells (rows_of d2 output)"
  by (simp add: rows_of_eq map_map_filter text_cells_emitted [of d1 _ d2])

lemma image_cell_cases:
  "image_cell r \<noteq> [] \<and> (image_cell r = ''No Image'' \<or> r = Some (image_cell r))
   \<and> (r = None \<or> r = Some [] \<longrightarrow> image_cell r = ''No Image'')"
  by (cases r) (auto simp: image_cell_def)

lemma short_slice: "length xs < 3 \<Longrightarrow> slice_1_m1 xs = []"
  by (simp add: slice_1_m1_def)

subsection \<open>Trimming does not add paragraphs\<close>

lemma length_split_ge1: "Suc 0 \<le> length (split sep s)"
  using split_not_Nil [of sep s] by (cases "split sep s") auto

lemma length_split_Char:
  "\<not> (sep \<noteq> [] \<and> prefix sep (c # cs)) \<Longrightarrow> length (split sep (c # cs)) = length (split sep cs)"
  using split_not_Nil [of sep cs] by (cases "split sep cs") (auto simp: split_Cons)

lemma length_split_Sep:
  "sep \<noteq> [] \<Longrightarrow> prefix sep (c # cs) \<Longrightarrow>
   length (split sep (c # cs)) = Suc (length (split sep (drop (length sep) (c # cs))))"
  by (simp add: split_Cons)

lemma split_short: "length s < length sep \<Longrightarrow> length (split sep s) = 1"
proof (induction s)
  case Nil
  then show ?case by (simp add: split_Nil)
next
  case (Cons c cs)
  have "\<not> prefix sep (c # cs)"
    using Cons.prems prefix_length_le by fastforce
  then show ?case
    using Cons by (simp add: length_split_Char)
qed

lemma length_split_append: "length (split sep s) \<le> length (split sep (s @ t))"
proof (induction s rule: split_induct [where sep = sep])
  case Nil
  then show ?case using length_split_ge1 [of sep t] by (simp add: split_Nil)
next
  case (Sep c cs)
  have le: "length sep \<le> length (c # cs)"
    using Sep(2) by (rule prefix_length_le)
  have p: "prefix sep (c # (cs @ t))"
    using Sep(2) prefix_prefix [of sep "c # cs" t] by simp
  have d: "drop (length sep) (c # (cs @ t)) = drop (length sep) (c # cs) @ t"
    using le drop_append [of "length sep" "c # cs" t] by simp
  show ?case
    using Sep(3) length_split_Sep [OF Sep(1) Sep(2)] length_split_Sep [OF Sep(1) p] d
    by simp
next
  case (Char c cs)
  show ?case
  proof (cases "sep \<noteq> [] \<and> prefix sep (c # (cs @ t))")
    case True
    have "length (c # cs) < length sep"
    proof (rule ccontr)
      assume "\<not> length (c # cs) < length sep"
      then have "length sep \<le> length (c # cs)" by simp
      moreover have "prefix sep ((c # cs) @ t)" using True by simp
      ultimately have "prefix sep (c # cs)"
        by (metis prefix_append prefix_length_prefix prefix_order.refl prefixI)
      then show False using Char(1) True by simp
    qed
    then have "length (split sep (c # cs)) = 1"
      by (rule split_short)
    then show ?thesis
      using length_split_ge1 [of sep "(c # cs) @ t"] by simp
  next
    case False
    then show ?thesis
      using Char by (simp add: length_split_Char)
  qed
qed

lemma length_split_prepend:
  "x \<notin> set sep \<Longrightarrow> length (split sep (x # t)) \<le> length (split sep (w @ x # t))"
proof (induction w rule: length_induct)
  case (1 w)
  show ?case
  proof (cases w)
    case Nil
    then show ?thesis by simp
  next
    case (Cons c cs)
    show ?thesis
    proof (cases "sep \<noteq> [] \<and> prefix sep (c # (cs @ x # t))")
      case True
      have le: "length sep \<le> length (c # cs)"
      proof (rule ccontr)
        assume "\<not> length sep \<le> length (c # cs)"
        then have "length (c # cs) < length sep" by simp
        moreover have "take (length sep) ((c # cs) @ x # t) = sep"
          using True by (metis append_eq_conv_conj prefix_def append_Cons)
        ultimately have "sep ! length (c # cs) = x"
          by (metis nth_append_length nth_take)
        then have "x \<in> set sep"
          using \<open>length (c # cs) < length sep\<close> nth_mem by blast
        then show False using 1(2) by simp
      qed
      have d: "drop (length sep) (c # (cs @ x # t)) = drop (length sep) (c # cs) @ x # t"
        using le drop_append [of "length sep" "c # cs" "x # t"] by simp
      have "length (drop (length sep) (c # cs)) < length w"
        using True Cons by (cases sep) auto
      then have "length (split sep (x # t))
                 \<le> length (split sep (drop (length sep) (c # cs) @ x # t))"
        using 1 by blast
      then show ?thesis
        using Cons True d length_split_Sep [of sep c "cs @ x # t"] by simp
    next
      case False
      have "length (split sep (x # t)) \<le> length (split sep (cs @ x # t))"
        using 1 Cons by simp
      then show ?thesis
        using Cons False length_split_Char [of sep c "cs @ x # t"] by simp
    qed
  qed
qed

lemma length_split_strip:
  assumes "\<forall>c\<in>set sep. isspace c"
  shows "length (split sep (strip s)) \<le> length (split sep s)"
proof (cases "strip s")
  case Nil
  then show ?thesis
    using length_split_ge1 [of sep s] by (simp add: split_Nil)
next
  case (Cons x t)
  obtain a b where s: "s = a @ strip s @ b"
    using strip_decomp by blast
  have "\<not> isspace x"
    using hd_strip [of s] Cons by simp
  then have x: "x \<notin> set sep"
    using assms by blast
  have "length (split sep (x # t)) \<le> length (split sep ((x # t) @ b))"
    by (rule length_split_append)
  also have "\<dots> \<le> length (split sep (a @ x # (t @ b)))"
    using length_split_prepend [OF x, of "t @ b" a] by simp
  also have "a @ x # (t @ b) = s"
    using s Cons by simp
  finally show ?thesis
    using Cons by simp
qed

lemma paragraphs_strip_le:
  "length (split ''\<newline>\<newline>'' (strip output)) \<le> length (split ''\<newline>\<newline>'' output)"
  by (rule length_split_strip) (simp add: isspace_def)

subsection \<open>replace\<close>

lemma replace_absent: "\<not> occurs old s \<Longrightarrow> replace old new s = s"
  by (induction s) auto

lemma length_replace_le: "length (replace old [] s) \<le> length s"
proof (induction s rule: split_induct [where sep = old])
  case Nil
  then show ?case by simp
next
  case (Sep c cs)
  have "length (drop (length old) (c # cs)) \<le> length (c # cs)"
    by simp
  then show ?case
    using Sep by (simp del: drop_Cons' length_drop add: le_trans)
next
  case (Char c cs)
  then show ?case by auto
qed

lemma length_replace_less:
  "old \<noteq> [] \<Longrightarrow> occurs old s \<Longrightarrow> length (replace old [] s) < length s"
proof (induction s rule: split_induct [where sep = old])
  case Nil
  then show ?case by simp
next
  case (Sep c cs)
  have "length (replace old [] (drop (length old) (c # cs))) \<le> length (drop (length old) (c # cs))"
    by (rule length_replace_le)
  moreover have "length (drop (length old) (c # cs)) < length (c # cs)"
    using Sep(1) by (cases old) auto
  ultimately have "length (replace old [] (drop (length old) (c # cs))) < length (c # cs)"
    by (rule le_less_trans)
  moreover have "replace old [] (c # cs) = replace old [] (drop (length old) (c # cs))"
    using Sep(1,2) by simp
  ultimately show ?case by simp
next
  case (Char c cs)
  then have "occurs old cs" by auto
  then have "length (replace old [] cs) < length cs"
    using Char by blast
  moreover have "replace old [] (c # cs) = c # replace old [] cs"
    using Char(1) by auto
  ultimately show ?case by simp
qed

lemma replace_fixed_iff:
  "old \<noteq> [] \<Longrightarrow> (replace old [] s = s) = (\<not> occurs old s)"
  using replace_absent [of old s "[]"] length_replace_less [of old s] by fastforce

lemma occurs_drop: "occurs sub (drop n s) \<Longrightarrow> occurs sub s"
  unfolding occurs_sublist using sublist_drop sublist_order.order.trans by blast

lemma replace_prefix_only:
  assumes "old \<noteq> []" and "\<not> occurs old (tl s)"
  shows "replace old [] s = strip_label_prefix old s"
    and "\<not> occurs old (replace old [] s)"
proof -
  have both: "replace old [] s = strip_label_prefix old s \<and> \<not> occurs old (replace old [] s)"
  proof (cases s)
    case Nil
    then show ?thesis using assms(1) by (simp add: strip_label_prefix_def)
  next
    case (Cons c cs)
    show ?thesis
    proof (cases "prefix old (c # cs)")
      case True
      obtain n where n: "length old = Suc n"
        using assms(1) by (cases old) auto
      have "\<not> occurs old (drop n cs)"
        using assms(2) Cons occurs_drop by auto
      then have "\<not> occurs old (drop (length old) (c # cs))"
        using n by simp
      then have "replace old [] (drop (length old) (c # cs)) = drop (length old) (c # cs)"
        and "\<not> occurs old (drop (length old) (c # cs))"
        by (simp_all only: replace_absent not_False_eq_True)
      moreover have "replace old [] (c # cs) = replace old [] (drop (length old) (c # cs))"
        using True assms(1) by simp
      ultimately show ?thesis
        using True Cons by (simp only: strip_label_prefix_def if_True) simp
    next
      case False
      have no: "\<not> occurs old s"
        using False assms(2) Cons by simp
      then have "replace old [] s = s"
        by (rule replace_absent)
      moreover have "strip_label_prefix old s = s"
        using False Cons by (simp add: strip_label_prefix_def)
      ultimately show ?thesis
        using no by simp
    qed
  qed
  from both show "replace old [] s = strip_label_prefix old s" by blast
  from both show "\<not> occurs old (replace old [] s)" by blast
qed

lemma field_text_prefix_only:
  "label \<noteq> [] \<Longrightarrow> \<not> occurs label (tl line) \<Longrightarrow> field_text label line = spec_field_text label line"
  by (simp add: field_text_def spec_field_text_def replace_prefix_only(1))

subsection \<open>join and split\<close>

lemma split_single_absent: "x \<notin> set s \<Longrightarrow> split [x] s = [s]"
  by (induction s) (auto simp: split_Nil split_single_Cons)

lemma split_single_append: "x \<notin> set p \<Longrightarrow> split [x] (p @ x # r) = p # split [x] r"
  by (induction p) (auto simp: split_single_Cons)

lemma split_join:
  "ls \<noteq> [] \<Longrightarrow> \<forall>l\<in>set ls. x \<notin> set l \<Longrightarrow> split [x] (join [x] ls) = ls"
proof (induction "[x]" ls rule: join.induct)
  case 1
  then show ?case by simp
next
  case (2 p)
  then show ?case by (simp add: split_single_absent)
next
  case (3 p q ps)
  then show ?case by (simp add: split_single_append)
qed

lemma take4: "4 < length xs \<Longrightarrow> take 4 xs = [xs ! 0, xs ! 1, xs ! 2, xs ! 3]"
proof -
  assume "4 < length xs"
  then obtain a x1 where 1: "xs = a # x1" "3 < length x1"
    by (cases xs) auto
  then obtain b x2 where 2: "x1 = b # x2" "2 < length x2"
    by (cases x1) auto
  then obtain c x3 where 3: "x2 = c # x3" "1 < length x3"
    by (cases x2) auto
  then obtain d x4 where 4: "x3 = d # x4"
    by (cases x3) auto
  show ?thesis
    using 1 2 3 4 by (simp add: eval_nat_numeral)
qed

lemma row_of_lines_take4:
  "4 < length lines \<Longrightarrow> row_of_lines dalle (take 4 lines) = row_of_lines dalle lines"
  by (simp add: row_of_lines_long)

lemma lines_of_first_lines:
  assumes "4 < length (lines_of p)"
    and "lines_of p ! 3 \<noteq> []" and "\<not> isspace (last (lines_of p ! 3))"
  shows "lines_of (first_lines 4 p) = take 4 (lines_of p)"
proof -
  let ?ls = "lines_of p"
  have sp: "strip p \<noteq> []"
    using assms(1) lines_of_blank [of p] by auto
  have "?ls \<noteq> []"
    using assms(1) by auto
  then have "hd ?ls = ?ls ! 0"
    by (rule hd_conv_nth)
  then have l0: "?ls ! 0 \<noteq> []" "\<not> isspace (hd (?ls ! 0))"
    using hd_lines_of [OF sp] by auto
  have t: "take 4 ?ls = [?ls ! 0, ?ls ! 1, ?ls ! 2, ?ls ! 3]"
    using assms(1) by (rule take4)
  have j: "first_lines 4 p
           = ?ls ! 0 @ ''\<newline>'' @ ?ls ! 1 @ ''\<newline>'' @ ?ls ! 2 @ ''\<newline>'' @ ?ls ! 3"
    unfolding first_lines_def t by simp
  have "hd (first_lines 4 p) = hd (?ls ! 0)"
    unfolding j using l0(1) by simp
  moreover have "last (first_lines 4 p) = last (?ls ! 3)"
    unfolding j using assms(2) by simp
  moreover have "first_lines 4 p \<noteq> []"
    unfolding j using l0(1) by simp
  ultimately have s: "strip (first_lines 4 p) = first_lines 4 p"
    using l0(2) assms(3) by (intro strip_id) simp
  have "\<forall>l\<in>set (take 4 ?ls). CHR ''\<newline>'' \<notin> set l"
    using line_free [of _ p] by (meson in_set_takeD)
  moreover have "take 4 ?ls \<noteq> []"
    using t by simp
  ultimately have "split ''\<newline>'' (join ''\<newline>'' (take 4 ?ls)) = take 4 ?ls"
    by (intro split_join)
  then show ?thesis
    using s by (simp add: lines_of_def first_lines_def)
qed

subsection \<open>The name of a row\<close>

lemma sub_colon_eq:
  "CHR ''\<newline>'' \<notin> set s \<Longrightarrow>
   sub_colon s = (if s \<noteq> [] \<and> last s = CHR '':'' then butlast s else s)"
  by (induction s) (auto simp: match_colon_def)

lemma sub_colon_blank:
  assumes "CHR ''\<newline>'' \<notin> set t" and "t = [] \<or> \<not> isspace (hd t)"
    and "strip (sub_colon t) = []"
  shows "t = [] \<or> t = '':''"
proof (cases "t = []")
  case True
  then show ?thesis by simp
next
  case False
  then have h: "\<not> isspace (hd t)"
    using assms(2) by simp
  have all: "\<forall>c\<in>set (sub_colon t). isspace c"
    using assms(3) by (simp add: strip_eq_Nil)
  show ?thesis
  proof (cases "last t = CHR '':''")
    case True
    then have b: "sub_colon t = butlast t"
      using False assms(1) by (simp add: sub_colon_eq)
    have "butlast t = []"
    proof (rule ccontr)
      assume n: "butlast t \<noteq> []"
      then have "hd (butlast t) = hd t"
        by (cases t) (auto split: if_splits)
      moreover have "hd (butlast t) \<in> set (butlast t)"
        using n by simp
      ultimately show False using all b h by auto
    qed
    then have "t = [last t]"
      using False by (metis append_butlast_last_id append_Nil)
    then show ?thesis using True by simp
  next
    case c: False
    then have "sub_colon t = t"
      using assms(1) by (simp add: sub_colon_eq)
    moreover have "hd t \<in> set t"
      using False by simp
    ultimately show ?thesis using all h by auto
  qed
qed

lemma not_digit_period: "\<not> isdigit (CHR ''.'')"
  by (simp add: isdigit_def)

lemma not_space_colon: "\<not> isspace (CHR '':'')"
  by (simp add: isspace_def)

lemma match_ordinal_decomp:
  assumes "ds \<noteq> []" and "\<forall>c\<in>set ds. isdigit c" and "\<forall>c\<in>set ws. isspace c"
    and "tail = [] \<or> \<not> isspace (hd tail)"
  shows "re_sub_name (ds @ ''.'' @ ws @ tail) = sub_colon tail"
proof -
  have tw: "takeWhile isdigit (ds @ ''.'' @ ws @ tail) = ds"
    using assms(2) not_digit_period by (simp add: takeWhile_append2)
  have dw: "dropWhile isdigit (ds @ ''.'' @ ws @ tail) = ''.'' @ ws @ tail"
    using assms(2) not_digit_period by (simp add: dropWhile_append2)
  have sw: "takeWhile isspace (ws @ tail) = ws"
    using assms(3,4) by (cases tail) (simp_all add: takeWhile_append2)
  have "match_ordinal (ds @ ''.'' @ ws @ tail) = Some (length ds + 1 + length ws)"
    unfolding match_ordinal_def tw dw using assms(1) sw by simp
  then show ?thesis
    by (simp add: re_sub_name_def)
qed

lemma match_ordinal_Some:
  assumes "match_ordinal line = Some n"
  shows "\<exists>ds ws tail. line = ds @ ''.'' @ ws @ tail \<and> ds \<noteq> [] \<and> (\<forall>c\<in>set ds. isdigit c)
           \<and> (\<forall>c\<in>set ws. isspace c) \<and> (tail = [] \<or> \<not> isspace (hd tail))"
proof -
  let ?ds = "takeWhile isdigit line"
  let ?rest = "dropWhile isdigit line"
  have c: "?ds \<noteq> [] \<and> ?rest \<noteq> [] \<and> hd ?rest = CHR ''.''"
    using assms by (simp add: match_ordinal_def Let_def split: if_splits)
  then have r: "?rest = ''.'' @ tl ?rest"
    by (cases ?rest) auto
  let ?ws = "takeWhile isspace (tl ?rest)"
  let ?tail = "dropWhile isspace (tl ?rest)"
  have "line = ?ds @ ?rest"
    by simp
  also have "?rest = ''.'' @ ?ws @ ?tail"
    using r by simp
  finally have "line = ?ds @ ''.'' @ ?ws @ ?tail" .
  moreover have "\<forall>c\<in>set ?ds. isdigit c"
    by (auto dest: set_takeWhileD)
  moreover have "\<forall>c\<in>set ?ws. isspace c"
    by (auto dest: set_takeWhileD)
  moreover have "?tail = [] \<or> \<not> isspace (hd ?tail)"
    using hd_dropWhile [of isspace "tl ?rest"] by blast
  ultimately show ?thesis
    using c by blast
qed

lemma name_empty_iff:
  assumes "line \<noteq> []" and "\<not> isspace (hd line)" and "CHR ''\<newline>'' \<notin> set line"
  shows "(strip (re_sub_name line) = []) =
         (line = '':'' \<or>
          (\<exists>ds ws. ds \<noteq> [] \<and> (\<forall>c\<in>set ds. isdigit c) \<and> (\<forall>c\<in>set ws. isspace c)
                   \<and> (line = ds @ ''.'' @ ws \<or> line = ds @ ''.'' @ ws @ '':'')))"
    (is "?L = ?R")
proof
  assume L: ?L
  show ?R
  proof (cases "match_ordinal line")
    case None
    then have "strip (sub_colon line) = []"
      using L by (simp add: re_sub_name_def)
    then have "line = [] \<or> line = '':''"
      using assms by (intro sub_colon_blank) auto
    then show ?thesis using assms(1) by simp
  next
    case (Some n)
    then obtain ds ws tail where d: "line = ds @ ''.'' @ ws @ tail" "ds \<noteq> []"
      "\<forall>c\<in>set ds. isdigit c" "\<forall>c\<in>set ws. isspace c" "tail = [] \<or> \<not> isspace (hd tail)"
      using match_ordinal_Some by blast
    have "re_sub_name line = sub_colon tail"
      unfolding d(1) using d(2-5) by (rule match_ordinal_decomp)
    then have "strip (sub_colon tail) = []"
      using L by simp
    moreover have "CHR ''\<newline>'' \<notin> set tail"
      using assms(3) d(1) by simp
    ultimately have "tail = [] \<or> tail = '':''"
      using d(5) by (intro sub_colon_blank)
    then have "line = ds @ ''.'' @ ws \<or> line = ds @ ''.'' @ ws @ '':''"
      using d(1) by auto
    then show ?thesis using d(2-4) by blast
  qed
next
  assume R: ?R
  then consider "line = '':''"
    | ds ws where "ds \<noteq> []" "\<forall>c\<in>set ds. isdigit c" "\<forall>c\<in>set ws. isspace c" "line = ds @ ''.'' @ ws"
    | ds ws where "ds \<noteq> []" "\<forall>c\<in>set ds. isdigit c" "\<forall>c\<in>set ws. isspace c" "line = ds @ ''.'' @ ws @ '':''"
    by blast
  then show ?L
  proof cases
    case 1
    then show ?thesis by (simp add: re_sub_name_def match_ordinal_def match_colon_def strip_def
          lstrip_def rstrip_def isdigit_def)
  next
    case 2
    have "re_sub_name (ds @ ''.'' @ ws @ []) = sub_colon []"
      using 2(1-3) by (intro match_ordinal_decomp) simp_all
    then show ?thesis using 2(4) by (simp add: strip_eq_Nil)
  next
    case 3
    have "re_sub_name (ds @ ''.'' @ ws @ '':'') = sub_colon '':''"
      using 3(1-3) not_space_colon by (intro match_ordinal_decomp) simp_all
    then show ?thesis using 3(4) by (simp add: strip_eq_Nil match_colon_def)
  qed
qed

lemma emitted_name:
  assumes "emitted dalle p = Some m"
  shows "material_name m = strip (re_sub_name (hd (lines_of p)))"
    and "hd (lines_of p) \<noteq> []" and "\<not> isspace (hd (hd (lines_of p)))"
    and "CHR ''\<newline>'' \<notin> set (hd (lines_of p))"
proof -
  have long: "2 < length (lines_of p)"
    using assms emitted_iff [of dalle p] by simp
  then have ne: "lines_of p \<noteq> []"
    by auto
  then have h: "hd (lines_of p) = lines_of p ! 0"
    by (rule hd_conv_nth)
  show "material_name m = strip (re_sub_name (hd (lines_of p)))"
    using assms emitted_long [OF long, of dalle] h by auto
  have "strip p \<noteq> []"
    using long lines_of_blank [of p] by auto
  then show "hd (lines_of p) \<noteq> []" and "\<not> isspace (hd (hd (lines_of p)))"
    using hd_lines_of by blast+
  have "hd (lines_of p) \<in> set (lines_of p)"
    using ne by simp
  then show "CHR ''\<newline>'' \<notin> set (hd (lines_of p))"
    by (rule line_free)
qed

subsection \<open>Unfolding the definitions on a concrete input\<close>

lemmas eval_defs =
  display_table_def paragraphs_of_def material_of_def row_of_lines_def field_text_def
  re_sub_name_def match_ordinal_def match_colon_def strip_def lstrip_def rstrip_def
  lstrip_chars_def isspace_def isdigit_def split_def slice_1_m1_def index_def bind_def
  get_image_from_dalle_def image_cell_def Let_def

section \<open>The claims\<close>

text \<open>
  C1. For the raw response of the end-to-end example, \<open>display_table\<close> returns
  exactly two rows, in this order: Aluminum with properties \<open>lightweight\<close>, pros
  \<open>corrosion resistant\<close> and cons \<open>costlier than steel\<close>, then Steel with
  properties \<open>strong\<close>, pros \<open>cheap\<close> and empty cons. The image cell of each
  row is what the image service gives for the row's name.
\<close>

theorem example_two_records:
  "display_table dalle ''Intro.\<newline>\<newline>1. Aluminum:\<newline>Properties: - lightweight\<newline>Pros: - corrosion resistant\<newline>Cons: - costlier than steel\<newline>\<newline>2. Steel:\<newline>Properties: - strong\<newline>Pros: - cheap\<newline>\<newline>Outro.''
   = Inr [\<lparr>material_name = ''Aluminum'', properties = ''lightweight'',
            pros = ''corrosion resistant'', cons = ''costlier than steel'',
            image_url = image_cell (dalle ''Aluminum'')\<rparr>,
          \<lparr>material_name = ''Steel'', properties = ''strong'', pros = ''cheap'',
            cons = [], image_url = image_cell (dalle ''Steel'')\<rparr>]"
  by (simp add: eval_defs)

text \<open>
  C2. For every raw response, the table is made of the rows of the paragraphs
  between the first and the last, in order, and such a paragraph gives a row
  if and only if it has at least three non-empty lines; the number of rows is
  the number of those paragraphs. (A line of a trimmed paragraph is never the
  empty string, so these are the paragraphs with more than two lines.)
\<close>

theorem three_line_minimum:
  "display_table dalle output = Inr (List.map_filter (emitted dalle) (paragraphs_of output))
   \<and> (\<forall>p\<in>set (paragraphs_of output).
         (emitted dalle p \<noteq> None) = (3 \<le> length (filter (\<lambda>l. l \<noteq> []) (lines_of p))))
   \<and> length (rows_of dalle output)
       = length (filter (\<lambda>p. 3 \<le> length (filter (\<lambda>l. l \<noteq> []) (lines_of p)))
                        (paragraphs_of output))"
proof -
  have a: "\<forall>p\<in>set (paragraphs_of output).
         (emitted dalle p \<noteq> None) = (3 \<le> length (filter (\<lambda>l. l \<noteq> []) (lines_of p)))"
    using nonempty_line_count emitted_iff by blast
  have "length (rows_of dalle output)
        = length (filter (\<lambda>p. emitted dalle p \<noteq> None) (paragraphs_of output))"
    by (simp add: rows_of_eq length_map_filter)
  also have "\<dots> = length (filter (\<lambda>p. 3 \<le> length (filter (\<lambda>l. l \<noteq> []) (lines_of p)))
                        (paragraphs_of output))"
    using a by (intro arg_cong [where f = length] filter_cong) auto
  finally show ?thesis
    using a display_table_rows by blast
qed

theorem three_line_minimum_witness:
  "''A\<newline>B\<newline>C'' \<in> set (paragraphs_of ''I\<newline>\<newline>A\<newline>B\<newline>C\<newline>\<newline>X\<newline>Y\<newline>\<newline>O'')
   \<and> emitted failing_service ''A\<newline>B\<newline>C'' \<noteq> None
   \<and> 3 \<le> length (filter (\<lambda>l. l \<noteq> []) (lines_of ''A\<newline>B\<newline>C''))
   \<and> ''X\<newline>Y'' \<in> set (paragraphs_of ''I\<newline>\<newline>A\<newline>B\<newline>C\<newline>\<newline>X\<newline>Y\<newline>\<newline>O'')
   \<and> emitted failing_service ''X\<newline>Y'' = None
   \<and> length (rows_of failing_service ''I\<newline>\<newline>A\<newline>B\<newline>C\<newline>\<newline>X\<newline>Y\<newline>\<newline>O'') = 1"
  using three_line_minimum [of failing_service "''I\<newline>\<newline>A\<newline>B\<newline>C\<newline>\<newline>X\<newline>Y\<newline>\<newline>O''"]
  by (simp add: eval_defs lines_of_def emitted_def rows_of_def failing_service_def)

text \<open>
  Against C3 as stated (the name of an emitted row is never empty): a
  paragraph whose first line is only an ordinal and a colon gives a row with
  the empty name.
\<close>

theorem empty_name_counterexample:
  "display_table failing_service ''Intro\<newline>\<newline>1.:\<newline>Properties: a\<newline>Pros: b\<newline>\<newline>Outro''
     = Inr [\<lparr>material_name = [], properties = ''a'', pros = ''b'', cons = [],
              image_url = ''No Image''\<rparr>]"
  by (simp add: eval_defs failing_service_def)

text \<open>
  C3, amended. Every row of the table comes from a paragraph between the first
  and the last; its name is the paragraph's first line after the substitution
  and the trimming, and the name is empty exactly when that first line is a
  lone colon, or digits and a period followed by whitespace only, with or
  without a final colon. In every other case the name is not empty.
\<close>

theorem name_empty_only_if_bare:
  "m \<in> set (rows_of dalle output) \<Longrightarrow>
   \<exists>p\<in>set (paragraphs_of output).
     emitted dalle p = Some m
     \<and> material_name m = strip (re_sub_name (hd (lines_of p)))
     \<and> (material_name m = []) =
         (hd (lines_of p) = '':'' \<or>
          (\<exists>ds ws. ds \<noteq> [] \<and> (\<forall>c\<in>set ds. isdigit c) \<and> (\<forall>c\<in>set ws. isspace c)
                   \<and> (hd (lines_of p) = ds @ ''.'' @ ws
                       \<or> hd (lines_of p) = ds @ ''.'' @ ws @ '':'')))"
proof -
  assume "m \<in> set (rows_of dalle output)"
  then obtain p where p: "p \<in> set (paragraphs_of output)" "emitted dalle p = Some m"
    using in_rows_of by blast
  note n = emitted_name [OF p(2)]
  have "(strip (re_sub_name (hd (lines_of p))) = []) =
         (hd (lines_of p) = '':'' \<or>
          (\<exists>ds ws. ds \<noteq> [] \<and> (\<forall>c\<in>set ds. isdigit c) \<and> (\<forall>c\<in>set ws. isspace c)
                   \<and> (hd (lines_of p) = ds @ ''.'' @ ws
                       \<or> hd (lines_of p) = ds @ ''.'' @ ws @ '':'')))"
    using n(2-4) by (rule name_empty_iff)
  then show ?thesis
    using p n(1) by auto
qed

theorem name_empty_only_if_bare_witness:
  "\<lparr>material_name = ''Steel'', properties = ''a'', pros = ''b'', cons = [],
     image_url = ''No Image''\<rparr>
     \<in> set (rows_of failing_service ''Intro\<newline>\<newline>2. Steel:\<newline>Properties: a\<newline>Pros: b\<newline>\<newline>Outro'')
   \<and> hd (lines_of ''2. Steel:\<newline>Properties: a\<newline>Pros: b'') = ''2. Steel:''
   \<and> strip (re_sub_name ''2. Steel:'') = ''Steel''"
proof -
  have h: "\<lparr>material_name = ''Steel'', properties = ''a'', pros = ''b'', cons = [],
     image_url = ''No Image''\<rparr>
     \<in> set (rows_of failing_service ''Intro\<newline>\<newline>2. Steel:\<newline>Properties: a\<newline>Pros: b\<newline>\<newline>Outro'')"
    by (simp add: eval_defs rows_of_def failing_service_def)
  have "hd (lines_of ''2. Steel:\<newline>Properties: a\<newline>Pros: b'') = ''2. Steel:''"
    and "strip (re_sub_name ''2. Steel:'') = ''Steel''"
    by (simp_all add: eval_defs lines_of_def)
  then show ?thesis
    using h name_empty_only_if_bare [OF h] by simp
qed

text \<open>
  Against C4 as stated (the label is stripped only where it is a prefix of the
  line): with the label inside the second line, the properties cell has lost
  it, where prefix-only stripping keeps the line whole.
\<close>

theorem label_anywhere_counterexample:
  "lines_of ''1. Steel:\<newline>Key Properties: strong\<newline>Pros: cheap'' ! 1 = ''Key Properties: strong''
   \<and> display_table failing_service ''Intro\<newline>\<newline>1. Steel:\<newline>Key Properties: strong\<newline>Pros: cheap\<newline>\<newline>Outro''
       = Inr [\<lparr>material_name = ''Steel'', properties = ''Key strong'', pros = ''cheap'', cons = [],
                image_url = ''No Image''\<rparr>]
   \<and> spec_field_text ''Properties: '' ''Key Properties: strong'' = ''Key Properties: strong''"
  by (simp add: eval_defs lines_of_def failing_service_def spec_field_text_def strip_label_prefix_def)

text \<open>
  C4, amended. For every paragraph with more than two lines, the properties
  cell is the second line with every occurrence of \<open>Properties: \<close> removed
  (one pass from the left), then every leading hyphen and space removed, then
  trimmed; the pros cell is the same of the third line with \<open>Pros: \<close>, and
  the cons cell the same of the fourth line with \<open>Cons: \<close>, or empty without
  a fourth line. Where the label does not occur in the line past its first
  character, this is prefix-only stripping.
\<close>

theorem label_removed_everywhere:
  "2 < length (lines_of p) \<Longrightarrow>
   \<exists>m. emitted dalle p = Some m
     \<and> properties m = strip (lstrip_chars ''- '' (replace ''Properties: '' [] (lines_of p ! 1)))
     \<and> pros m = strip (lstrip_chars ''- '' (replace ''Pros: '' [] (lines_of p ! 2)))
     \<and> cons m = (if 3 < length (lines_of p)
                 then strip (lstrip_chars ''- '' (replace ''Cons: '' [] (lines_of p ! 3)))
                 else [])
     \<and> (\<not> occurs ''Properties: '' (tl (lines_of p ! 1))
          \<longrightarrow> properties m = spec_field_text ''Properties: '' (lines_of p ! 1))
     \<and> (\<not> occurs ''Pros: '' (tl (lines_of p ! 2))
          \<longrightarrow> pros m = spec_field_text ''Pros: '' (lines_of p ! 2))
     \<and> (3 < length (lines_of p) \<and> \<not> occurs ''Cons: '' (tl (lines_of p ! 3))
          \<longrightarrow> cons m = spec_field_text ''Cons: '' (lines_of p ! 3))"
proof -
  assume long: "2 < length (lines_of p)"
  have a: "\<not> occurs ''Properties: '' (tl (lines_of p ! 1))
        \<Longrightarrow> field_text ''Properties: '' (lines_of p ! 1) = spec_field_text ''Properties: '' (lines_of p ! 1)"
    by (rule field_text_prefix_only) simp
  have b: "\<not> occurs ''Pros: '' (tl (lines_of p ! 2))
        \<Longrightarrow> field_text ''Pros: '' (lines_of p ! 2) = spec_field_text ''Pros: '' (lines_of p ! 2)"
    by (rule field_text_prefix_only) simp
  have c: "\<not> occurs ''Cons: '' (tl (lines_of p ! 3))
        \<Longrightarrow> field_text ''Cons: '' (lines_of p ! 3) = spec_field_text ''Cons: '' (lines_of p ! 3)"
    by (rule field_text_prefix_only) simp
  show ?thesis
    using a b c by (simp add: emitted_long [OF long] field_text_def)
qed

theorem label_removed_everywhere_witness:
  "2 < length (lines_of ''1. Steel:\<newline>Properties: - strong\<newline>Pros: - cheap'')
   \<and> \<not> occurs ''Properties: '' (tl (lines_of ''1. Steel:\<newline>Properties: - strong\<newline>Pros: - cheap'' ! 1))
   \<and> map_option properties (emitted failing_service ''1. Steel:\<newline>Properties: - strong\<newline>Pros: - cheap'')
       = Some ''strong''
   \<and> spec_field_text ''Properties: '' (lines_of ''1. Steel:\<newline>Properties: - strong\<newline>Pros: - cheap'' ! 1)
       = ''strong''"
proof -
  have h: "2 < length (lines_of ''1. Steel:\<newline>Properties: - strong\<newline>Pros: - cheap'')"
    by (simp add: eval_defs lines_of_def)
  have l: "lines_of ''1. Steel:\<newline>Properties: - strong\<newline>Pros: - cheap'' ! 1 = ''Properties: - strong''"
    by (simp add: eval_defs lines_of_def)
  have s: "spec_field_text ''Properties: '' ''Properties: - strong'' = ''strong''"
    by (simp add: eval_defs spec_field_text_def strip_label_prefix_def)
  have o: "\<not> occurs ''Properties: '' (tl ''Properties: - strong'')"
    by simp
  show ?thesis
    using label_removed_everywhere [OF h, of failing_service] h l s o by auto
qed

text \<open>
  Against C5 as stated (stripping the label twice equals stripping it once):
  removing the occurrence inside \<open>PropProperties: erties: x\<close> joins the text
  around it into a new occurrence, which a second pass removes. The same line
  separates one and two applications of the whole cell expression.
\<close>

theorem label_strip_twice_counterexample:
  "replace ''Properties: '' [] (replace ''Properties: '' [] ''PropProperties: erties: x'')
     \<noteq> replace ''Properties: '' [] ''PropProperties: erties: x''
   \<and> replace ''Properties: '' [] ''PropProperties: erties: x'' = ''Properties: x''
   \<and> field_text ''Properties: '' (field_text ''Properties: '' ''PropProperties: erties: x'')
     \<noteq> field_text ''Properties: '' ''PropProperties: erties: x''"
  by (simp add: eval_defs)

text \<open>
  C5, amended. Stripping \<open>Properties: \<close> twice equals stripping it once
  exactly when the line stripped once holds no occurrence of the label; this
  is so in particular when the label does not occur in the line past its first
  character.
\<close>

theorem label_strip_twice:
  "(replace ''Properties: '' [] (replace ''Properties: '' [] line) = replace ''Properties: '' [] line)
     = (\<not> occurs ''Properties: '' (replace ''Properties: '' [] line))
   \<and> (\<not> occurs ''Properties: '' (tl line)
        \<longrightarrow> replace ''Properties: '' [] (replace ''Properties: '' [] line)
            = replace ''Properties: '' [] line)"
proof -
  have ne: "''Properties: '' \<noteq> []" by simp
  have a: "(replace ''Properties: '' [] (replace ''Properties: '' [] line) = replace ''Properties: '' [] line)
     = (\<not> occurs ''Properties: '' (replace ''Properties: '' [] line))"
    using ne by (rule replace_fixed_iff)
  have "\<not> occurs ''Properties: '' (tl line) \<Longrightarrow> \<not> occurs ''Properties: '' (replace ''Properties: '' [] line)"
    using ne by (rule replace_prefix_only(2))
  then show ?thesis using a by blast
qed

theorem label_strip_twice_witness:
  "\<not> occurs ''Properties: '' (tl ''Properties: - light'')
   \<and> replace ''Properties: '' [] ''Properties: - light'' = ''- light''
   \<and> replace ''Properties: '' [] (replace ''Properties: '' [] ''Properties: - light'')
       = replace ''Properties: '' [] ''Properties: - light''"
  using label_strip_twice [of "''Properties: - light''"]
  by simp

text \<open>
  C6. When the raw response has fewer than three paragraphs, counted on the
  response as given or on the trimmed response the parser splits, no
  paragraph is left between the first and the last, and \<open>display_table\<close>
  returns the empty table, not an error. (Trimming never adds a paragraph.)
\<close>

theorem few_paragraphs_empty:
  "length (split ''\<newline>\<newline>'' output) < 3 \<or> length (split ''\<newline>\<newline>'' (strip output)) < 3
   \<Longrightarrow> paragraphs_of output = [] \<and> display_table dalle output = Inr []"
proof -
  assume "length (split ''\<newline>\<newline>'' output) < 3 \<or> length (split ''\<newline>\<newline>'' (strip output)) < 3"
  then have "length (split ''\<newline>\<newline>'' (strip output)) < 3"
    using paragraphs_strip_le [of "output"] by auto
  then have "paragraphs_of output = []"
    unfolding paragraphs_of_def by (rule short_slice)
  then show ?thesis
    by (simp add: display_table_def)
qed

theorem few_paragraphs_empty_witness:
  "length (split ''\<newline>\<newline>'' ''Intro.\<newline>\<newline>A\<newline>B\<newline>C'') = 2
   \<and> display_table failing_service ''Intro.\<newline>\<newline>A\<newline>B\<newline>C'' = Inr []"
proof -
  have h: "length (split ''\<newline>\<newline>'' ''Intro.\<newline>\<newline>A\<newline>B\<newline>C'') = 2"
    by (simp add: split_def)
  then have "length (split ''\<newline>\<newline>'' ''Intro.\<newline>\<newline>A\<newline>B\<newline>C'') < 3
             \<or> length (split ''\<newline>\<newline>'' (strip ''Intro.\<newline>\<newline>A\<newline>B\<newline>C'')) < 3"
    by simp
  from few_paragraphs_empty [OF this, of failing_service] h show ?thesis
    by simp
qed

text \<open>
  C7. \<open>display_table\<close> returns a table for every input string and every image
  service: it never raises. Neither the loop body nor the block that reads
  \<open>lines[0]\<close> to \<open>lines[3]\<close> raises \<open>IndexError\<close>, whatever the lines are.
\<close>

theorem parser_total:
  "(\<exists>rows. display_table dalle output = Inr rows)
   \<and> display_table dalle output \<noteq> Inl e
   \<and> material_of dalle paragraph \<noteq> Inl e
   \<and> row_of_lines dalle lines \<noteq> Inl e"
proof -
  have "row_of_lines dalle lines \<noteq> Inl e"
    using row_of_lines_long [of lines dalle] row_of_lines_short [of lines dalle]
    by (cases "2 < length lines") auto
  then show ?thesis
    by (simp add: display_table_rows material_of_emitted)
qed

text \<open>
  C8. \<open>display_table\<close> returns its rows whatever the image service does. In
  every row the image cell is not empty, and it is either the marker
  \<open>No Image\<close> or the URL the service returned for the row's name; it is the
  marker when the request failed or returned an empty URL. The text cells of
  the rows are those obtained when every image request fails.
\<close>

theorem image_or_marker:
  "display_table dalle output = Inr (rows_of dalle output)
   \<and> (\<forall>m\<in>set (rows_of dalle output).
         image_url m \<noteq> []
         \<and> (image_url m = ''No Image'' \<or> dalle (material_name m) = Some (image_url m))
         \<and> (dalle (material_name m) = None \<or> dalle (material_name m) = Some []
              \<longrightarrow> image_url m = ''No Image''))
   \<and> map text_cells (rows_of dalle output) = map text_cells (rows_of failing_service output)"
proof -
  have "\<forall>m\<in>set (rows_of dalle output). image_url m = image_cell (dalle (material_name m))"
    using image_url_emitted by (auto simp: in_rows_of)
  then have "\<forall>m\<in>set (rows_of dalle output).
         image_url m \<noteq> []
         \<and> (image_url m = ''No Image'' \<or> dalle (material_name m) = Some (image_url m))
         \<and> (dalle (material_name m) = None \<or> dalle (material_name m) = Some []
              \<longrightarrow> image_url m = ''No Image'')"
    using image_cell_cases by metis
  moreover have "display_table dalle output = Inr (rows_of dalle output)"
    by (simp add: rows_of_eq display_table_rows)
  ultimately show ?thesis
    using text_cells_rows by blast
qed

theorem image_or_marker_witness:
  "rows_of failing_service ''I\<newline>\<newline>A\<newline>B\<newline>C\<newline>\<newline>O''
     = [\<lparr>material_name = ''A'', properties = ''B'', pros = ''C'', cons = [],
          image_url = ''No Image''\<rparr>]
   \<and> failing_service ''A'' = None
   \<and> display_table failing_service ''I\<newline>\<newline>A\<newline>B\<newline>C\<newline>\<newline>O''
       = Inr (rows_of failing_service ''I\<newline>\<newline>A\<newline>B\<newline>C\<newline>\<newline>O'')"
  using image_or_marker [of failing_service "''I\<newline>\<newline>A\<newline>B\<newline>C\<newline>\<newline>O''"]
  by (simp add: eval_defs rows_of_def failing_service_def)

text \<open>
  C9. When the user input is empty or all whitespace, the handler shows the
  validation warning and does nothing else: no event of the run is a call to
  the summarizer or to any other service.
\<close>

theorem blank_input_rejected:
  "\<forall>c\<in>set user_input. isspace c \<Longrightarrow>
   get_suggestions completion chat dalle user_input explanation_type
     = [Warning ''Please enter a valid project description.'']
   \<and> filter is_gateway_call (get_suggestions completion chat dalle user_input explanation_type) = []"
  by (simp add: get_suggestions_def strip_eq_Nil)

theorem blank_input_rejected_witness:
  "isspace (CHR '' '') \<and> isspace (CHR ''\<newline>'')
   \<and> get_suggestions failing_service failing_service failing_service '' \<newline> '' Brief
       = [Warning ''Please enter a valid project description.'']
   \<and> filter is_gateway_call (get_suggestions failing_service failing_service failing_service '' \<newline> '' Brief) = []"
proof -
  have h: "\<forall>c\<in>set '' \<newline> ''. isspace c"
    by (simp add: isspace_def)
  show ?thesis
    using h blank_input_rejected [OF h, of failing_service failing_service failing_service Brief]
    by (simp add: isspace_def)
qed

text \<open>
  Against C10 as stated (a paragraph with more than four lines gives the row of
  its first four lines): the fourth line \<open>Cons: \<close> ends in a space, which
  the fifth line protects from the trimming of the paragraph; cut after the
  fourth line, the paragraph is trimmed to \<open>Cons:\<close>, which is no longer the
  label.
\<close>

theorem later_lines_counterexample:
  "4 < length (lines_of ''1. Steel:\<newline>Properties: strong\<newline>Pros: cheap\<newline>Cons: \<newline>- rusts'')
   \<and> first_lines 4 ''1. Steel:\<newline>Properties: strong\<newline>Pros: cheap\<newline>Cons: \<newline>- rusts''
       = ''1. Steel:\<newline>Properties: strong\<newline>Pros: cheap\<newline>Cons: ''
   \<and> display_table failing_service ''Intro\<newline>\<newline>1. Steel:\<newline>Properties: strong\<newline>Pros: cheap\<newline>Cons: \<newline>- rusts\<newline>\<newline>Outro''
       = Inr [\<lparr>material_name = ''Steel'', properties = ''strong'', pros = ''cheap'', cons = [],
                image_url = ''No Image''\<rparr>]
   \<and> display_table failing_service ''Intro\<newline>\<newline>1. Steel:\<newline>Properties: strong\<newline>Pros: cheap\<newline>Cons: \<newline>\<newline>Outro''
       = Inr [\<lparr>material_name = ''Steel'', properties = ''strong'', pros = ''cheap'',
                cons = ''Cons:'', image_url = ''No Image''\<rparr>]"
  by (simp add: eval_defs lines_of_def first_lines_def failing_service_def)

text \<open>
  C10, amended. For every paragraph with more than four lines, the row is
  computed from the first four lines of the trimmed paragraph alone: lines at
  index 4 and beyond are in no cell. It is the row of the paragraph cut down
  to its first four lines whenever the fourth line is not empty and does not
  end in whitespace.
\<close>

theorem later_lines_discarded:
  "4 < length (lines_of p) \<Longrightarrow>
   material_of dalle p = row_of_lines dalle (take 4 (lines_of p))
   \<and> (lines_of p ! 3 \<noteq> [] \<and> \<not> isspace (last (lines_of p ! 3))
        \<longrightarrow> material_of dalle (first_lines 4 p) = material_of dalle p)"
  by (simp add: material_of_lines row_of_lines_take4 lines_of_first_lines)

theorem later_lines_discarded_witness:
  "4 < length (lines_of ''N\<newline>P\<newline>Q\<newline>C\<newline>X'')
   \<and> lines_of ''N\<newline>P\<newline>Q\<newline>C\<newline>X'' ! 3 = ''C''
   \<and> \<not> isspace (CHR ''C'')
   \<and> first_lines 4 ''N\<newline>P\<newline>Q\<newline>C\<newline>X'' = ''N\<newline>P\<newline>Q\<newline>C''
   \<and> material_of failing_service ''N\<newline>P\<newline>Q\<newline>C'' = material_of failing_service ''N\<newline>P\<newline>Q\<newline>C\<newline>X''"
proof -
  have h: "4 < length (lines_of ''N\<newline>P\<newline>Q\<newline>C\<newline>X'')"
    by (simp add: eval_defs lines_of_def)
  have l: "lines_of ''N\<newline>P\<newline>Q\<newline>C\<newline>X'' ! 3 = ''C''"
    by (simp add: eval_defs lines_of_def)
  have f: "first_lines 4 ''N\<newline>P\<newline>Q\<newline>C\<newline>X'' = ''N\<newline>P\<newline>Q\<newline>C''"
    by (simp add: eval_defs lines_of_def first_lines_def)
  have c: "\<not> isspace (CHR ''C'')"
    by (simp add: isspace_def)
  show ?thesis
    using later_lines_discarded [OF h, of failing_service] h l f c by simp
qed

end
